theory Spec2Isabelle
  imports Main "HOL-Library.Word" "HOL-Library.Signed_Division"
begin

unbundle bit_operations_syntax

section \<open>The virtual capacitor kernel of pru0-shepherd-fw (virtcap.c)\<close>

text \<open>
  The firmware computes on \<open>uint32_t\<close> and \<open>int32_t\<close>. Both are 32-bit words here:
  \<open>+\<close>, \<open>-\<close>, \<open>*\<close> and \<open>push_bit\<close> give the same bits for either signedness, so only
  division, right shift and comparison have to say how they read their operands.
  Signed overflow, which C leaves undefined, is the two's complement wrap-around
  of the target.
\<close>

type_synonym u32 = "32 word"

subsection \<open>Integer arithmetic of C on 32-bit words\<close>

text \<open>
  The header \<open>virtcap.h\<close> that declares \<open>VirtCapNoFpSettings\<close> is not among the
  sources, so the signedness of the integer fields of the settings is a parameter
  of the model. It decides the two divisions whose operands are settings and
  \<open>int\<close> values only (line 92 and line 128): with \<open>uint32_t\<close> fields the usual
  arithmetic conversions make the division unsigned; with \<open>int32_t\<close> fields (or
  narrower ones, which are promoted to \<open>int\<close>) it is the signed division of C,
  which truncates towards zero. Dividing the least \<open>int\<close> by \<open>-1\<close>, undefined in C,
  wraps around like the other signed overflows.
\<close>

datatype signedness = Unsigned | Signed

definition c_sdiv :: "u32 \<Rightarrow> u32 \<Rightarrow> u32" where
  "c_sdiv a b = word_of_int (sint a sdiv sint b)"

definition c_div :: "signedness \<Rightarrow> u32 \<Rightarrow> u32 \<Rightarrow> u32" where
  "c_div sg a b = (case sg of Unsigned \<Rightarrow> a div b | Signed \<Rightarrow> c_sdiv a b)"

subsection \<open>SquareRootRounded\<close>

text \<open>The first loop: \<open>while (one > op) one >>= 2;\<close>\<close>

function sqrt_start :: "u32 \<Rightarrow> u32 \<Rightarrow> u32" where
  "sqrt_start one op = (if one > op then sqrt_start (drop_bit 2 one) op else one)"
  by pat_completeness auto
termination
proof (relation "measure (\<lambda>(one, op). unat one)")
  show "wf (measure (\<lambda>(one, op). unat one))" by simp
next
  fix one op :: u32
  assume "op < one"
  then have "one \<noteq> 0" by auto
  then have "drop_bit 2 (unat one) < unat one"
    by (simp add: drop_bit_eq_div unat_gt_0)
  then show "((drop_bit 2 one, op), (one, op)) \<in> measure (\<lambda>(one, op). unat one)"
    unfolding unat_drop_bit_eq [symmetric] by simp
qed

text \<open>The second loop: \<open>while (one != 0) { ... res >>= 1; one >>= 2; }\<close>,
  returning the final \<open>op\<close> and \<open>res\<close>.\<close>

function sqrt_loop :: "u32 \<Rightarrow> u32 \<Rightarrow> u32 \<Rightarrow> u32 \<times> u32" where
  "sqrt_loop op res one =
     (if one \<noteq> 0
      then (if op \<ge> res + one
            then sqrt_loop (op - (res + one)) (drop_bit 1 (res + 2 * one)) (drop_bit 2 one)
            else sqrt_loop op (drop_bit 1 res) (drop_bit 2 one))
      else (op, res))"
  by pat_completeness auto
termination
proof (relation "measure (\<lambda>(op, res, one). unat one)")
  show "wf (measure (\<lambda>(op, res, one). unat one))" by simp
next
  fix op res one :: u32
  assume "one \<noteq> 0"
  then have "drop_bit 2 (unat one) < unat one"
    by (simp add: drop_bit_eq_div unat_gt_0)
  then show "((op - (res + one), drop_bit 1 (res + 2 * one), drop_bit 2 one), (op, res, one))
      \<in> measure (\<lambda>(op, res, one). unat one)"
    unfolding unat_drop_bit_eq [symmetric] by simp
next
  fix op res one :: u32
  assume "one \<noteq> 0"
  then have "drop_bit 2 (unat one) < unat one"
    by (simp add: drop_bit_eq_div unat_gt_0)
  then show "((op, drop_bit 1 res, drop_bit 2 one), (op, res, one))
      \<in> measure (\<lambda>(op, res, one). unat one)"
    unfolding unat_drop_bit_eq [symmetric] by simp
qed

declare sqrt_start.simps [simp del]
declare sqrt_loop.simps [simp del]

definition SquareRootRounded :: "u32 \<Rightarrow> u32" where
  "SquareRootRounded a_nInput =
     (let one = sqrt_start (push_bit 30 1) a_nInput;
          (op, res) = sqrt_loop a_nInput 0 one
      in if op > res then res + 1 else res)"

subsection \<open>Unit conversion\<close>

definition SHIFT_VOLT :: nat where
  "SHIFT_VOLT = 13"

definition voltage_mv_to_logic :: "u32 \<Rightarrow> u32" where
  "voltage_mv_to_logic voltage = push_bit SHIFT_VOLT (voltage * 32)"

definition current_ua_to_logic :: "u32 \<Rightarrow> u32" where
  "current_ua_to_logic current = current * 3216 div 1000"

subsection \<open>The global state\<close>

text \<open>
  Modelled from the spec: the struct \<open>VirtCapNoFpSettings\<close>, declared in
  \<open>virtcap.h\<close>, which is not among the sources. Its fields are those of section 3
  of the specification, which are also the ones \<open>virtcap.c\<close> reads and writes.
  Every field is a 32-bit word; voltages and currents are in millivolt and
  microampere before \<open>virtcap_init\<close> and in logic units after it.
\<close>

record VirtCapNoFpSettings =
  upper_threshold_voltage :: u32
  lower_threshold_voltage :: u32
  sample_period_us :: u32
  capacitance_uF :: u32
  kMaxCapVoltage :: u32
  kMinCapVoltage :: u32
  kInitCapVoltage :: u32
  kDcoutputVoltage :: u32
  kLeakageCurrent :: u32
  kOnTimeLeakageCurrent :: u32
  kDiscretize :: u32
  kOutputCap_uF :: u32
  kConverterEfficiency :: u32

text \<open>
  Modelled from the spec: the type \<open>virtcap_nofp_callback_func_t\<close> and the macros
  \<open>TRUE\<close> and \<open>FALSE\<close>, declared in \<open>virtcap.h\<close>. The callback is a function of one
  boolean argument that returns nothing; the model keeps which function it is (a
  number) and records each invocation with its argument. The flags
  \<open>is_outputting\<close> and \<open>is_enabled\<close> are \<open>uint8_t\<close> in the source, only ever
  assigned \<open>FALSE\<close> or \<open>TRUE\<close> and only tested for being non-zero: they are
  booleans here.
\<close>

type_synonym virtcap_nofp_callback_func_t = nat

datatype call = Call virtcap_nofp_callback_func_t bool

record virtcap =
  harvest_multiplier :: u32
  kScaleInput :: u32
  outputcap_scale_factor :: u32
  cap_voltage :: u32
  is_outputting :: bool
  is_enabled :: bool
  discretize_cntr :: u32
  settings :: VirtCapNoFpSettings
  callback :: virtcap_nofp_callback_func_t

text \<open>The file-scope variables before any call: C initialises them to zero.\<close>

definition zero_settings :: VirtCapNoFpSettings where
  "zero_settings = \<lparr> upper_threshold_voltage = 0, lower_threshold_voltage = 0,
     sample_period_us = 0, capacitance_uF = 0, kMaxCapVoltage = 0, kMinCapVoltage = 0,
     kInitCapVoltage = 0, kDcoutputVoltage = 0, kLeakageCurrent = 0,
     kOnTimeLeakageCurrent = 0, kDiscretize = 0, kOutputCap_uF = 0,
     kConverterEfficiency = 0 \<rparr>"

definition virtcap_globals :: virtcap where
  "virtcap_globals = \<lparr> harvest_multiplier = 0, kScaleInput = 0,
     outputcap_scale_factor = 0, cap_voltage = 0, is_outputting = False,
     is_enabled = False, discretize_cntr = 0, settings = zero_settings, callback = 0 \<rparr>"

text \<open>A division whose divisor is zero stops the model, with the divisor named.\<close>

datatype fault = DivByZero_capacitance_uF | DivByZero_cap_voltage_shifted
  | DivByZero_100_capacitance_uF

subsection \<open>virtcap_init\<close>

text \<open>Lines 83 to 90: the in-place conversion of the stored settings.\<close>

definition convert_settings :: "VirtCapNoFpSettings \<Rightarrow> VirtCapNoFpSettings" where
  "convert_settings s = s
     \<lparr> upper_threshold_voltage := voltage_mv_to_logic (upper_threshold_voltage s),
       lower_threshold_voltage := voltage_mv_to_logic (lower_threshold_voltage s),
       kMaxCapVoltage := voltage_mv_to_logic (kMaxCapVoltage s),
       kMinCapVoltage := voltage_mv_to_logic (kMinCapVoltage s),
       kInitCapVoltage := voltage_mv_to_logic (kInitCapVoltage s),
       kDcoutputVoltage := voltage_mv_to_logic (kDcoutputVoltage s),
       kLeakageCurrent := current_ua_to_logic (kLeakageCurrent s),
       kOnTimeLeakageCurrent := current_ua_to_logic (kOnTimeLeakageCurrent s) \<rparr>"

definition virtcap_init ::
  "signedness \<Rightarrow> virtcap \<Rightarrow> VirtCapNoFpSettings \<Rightarrow> virtcap_nofp_callback_func_t
     \<Rightarrow> fault + virtcap" where
  "virtcap_init sg g settings_arg callback_arg =
     (let s = convert_settings settings_arg
      in if capacitance_uF s = 0 then Inl DivByZero_capacitance_uF
         else
           let outputcap_scale_factor_pre_sqrt =
                 c_div sg ((capacitance_uF s - kOutputCap_uF s) * 1024 * 1024) (capacitance_uF s)
           in Inr (g \<lparr> settings := s,
                       callback := callback_arg,
                       outputcap_scale_factor := SquareRootRounded outputcap_scale_factor_pre_sqrt,
                       cap_voltage := kInitCapVoltage s,
                       is_outputting := False,
                       is_enabled := False,
                       discretize_cntr := 0,
                       kScaleInput := 102911 \<rparr>))"

subsection \<open>virtcap_update\<close>

text \<open>Line 116 and line 118. The cast binds to \<open>input_power\<close> alone, and the
  product with the \<open>uint32_t kScaleInput\<close> is unsigned, as is everything after it.\<close>

definition input_current_of :: "virtcap \<Rightarrow> u32 \<Rightarrow> u32 \<Rightarrow> u32" where
  "input_current_of g input_power efficiency =
     drop_bit SHIFT_VOLT
       (input_power * kScaleInput g div drop_bit SHIFT_VOLT (cap_voltage g) * efficiency)
     - kLeakageCurrent (settings g)"

text \<open>Lines 121 to 126. The product with the \<open>uint32_t voltage_measured\<close> is unsigned.\<close>

definition output_current_of :: "virtcap \<Rightarrow> u32 \<Rightarrow> u32 \<Rightarrow> u32" where
  "output_current_of g current_measured voltage_measured =
     (let current_measured = (if \<not> is_outputting g then 0 else current_measured)
      in drop_bit SHIFT_VOLT
           (voltage_measured * current_measured div drop_bit SHIFT_VOLT (cap_voltage g)
              * kConverterEfficiency (settings g)))"

text \<open>Line 128, the voltage before it is clamped.\<close>

definition new_cap_voltage_of :: "signedness \<Rightarrow> virtcap \<Rightarrow> u32 \<Rightarrow> u32 \<Rightarrow> u32" where
  "new_cap_voltage_of sg g input_current output_current =
     cap_voltage g
     + c_div sg (push_bit SHIFT_VOLT (input_current - output_current)
                   * sample_period_us (settings g))
                (100 * capacitance_uF (settings g))"

text \<open>Lines 156 to 163.\<close>

definition clamp_cap_voltage :: "VirtCapNoFpSettings \<Rightarrow> u32 \<Rightarrow> u32" where
  "clamp_cap_voltage s new_cap_voltage =
     (if new_cap_voltage \<ge> kMaxCapVoltage s then kMaxCapVoltage s
      else if new_cap_voltage < kMinCapVoltage s then kMinCapVoltage s
      else new_cap_voltage)"

text \<open>Lines 166 to 186: the counter, the hysteresis and the commit of
  \<open>cap_voltage\<close>, with the callback invocations of this call.\<close>

definition hysteresis :: "virtcap \<Rightarrow> u32 \<Rightarrow> virtcap \<times> call list" where
  "hysteresis g new_cap_voltage =
     (let g1 = g \<lparr> discretize_cntr := discretize_cntr g + 1 \<rparr>
      in if discretize_cntr g1 \<ge> kDiscretize (settings g1)
         then
           (let g2 = g1 \<lparr> discretize_cntr := 0 \<rparr>
            in if is_outputting g2 \<and> new_cap_voltage < lower_threshold_voltage (settings g2)
               then (g2 \<lparr> is_outputting := False, cap_voltage := new_cap_voltage \<rparr>,
                     [Call (callback g2) False])
               else if \<not> is_outputting g2
                       \<and> new_cap_voltage > upper_threshold_voltage (settings g2)
               then (g2 \<lparr> is_outputting := True,
                          cap_voltage := drop_bit 10 new_cap_voltage * outputcap_scale_factor g2 \<rparr>,
                     [Call (callback g2) True])
               else (g2 \<lparr> cap_voltage := new_cap_voltage \<rparr>, []))
         else (g1 \<lparr> cap_voltage := new_cap_voltage \<rparr>, []))"

definition virtcap_update ::
  "signedness \<Rightarrow> virtcap \<Rightarrow> u32 \<Rightarrow> u32 \<Rightarrow> u32 \<Rightarrow> u32 \<Rightarrow> fault + virtcap \<times> call list" where
  "virtcap_update sg g current_measured voltage_measured input_power efficiency =
     (if drop_bit SHIFT_VOLT (cap_voltage g) = 0 then Inl DivByZero_cap_voltage_shifted
      else if 100 * capacitance_uF (settings g) = 0 then Inl DivByZero_100_capacitance_uF
      else
        let input_current = input_current_of g input_power efficiency;
            output_current = output_current_of g current_measured voltage_measured;
            new_cap_voltage = new_cap_voltage_of sg g input_current output_current
        in Inr (hysteresis g (clamp_cap_voltage (settings g) new_cap_voltage)))"

text \<open>One sample of the four measurements, and a sequence of update calls: the
  firmware's loop, stopping at the first fault, with the callback invocations of
  all calls in order.\<close>

type_synonym sample = "u32 \<times> u32 \<times> u32 \<times> u32"

fun virtcap_run :: "signedness \<Rightarrow> virtcap \<Rightarrow> sample list \<Rightarrow> fault + virtcap \<times> call list" where
  "virtcap_run sg g [] = Inr (g, [])"
| "virtcap_run sg g ((cm, vm, ip, ef) # xs) =
     (case virtcap_update sg g cm vm ip ef of
        Inl e \<Rightarrow> Inl e
      | Inr (g', cs) \<Rightarrow>
          (case virtcap_run sg g' xs of
             Inl e \<Rightarrow> Inl e
           | Inr (g'', cs') \<Rightarrow> Inr (g'', cs @ cs')))"

subsection \<open>The integration law as the specification words it\<close>

text \<open>
  The specification gives steps 1 to 5 of the update as formulas on integers, each
  operation applied in the stated order and reduced modulo \<open>2 ^ 32\<close>. The
  definitions below follow those words, on mathematical integers with the
  reduction written out, to be compared with \<open>input_current_of\<close>,
  \<open>output_current_of\<close> and \<open>new_cap_voltage_of\<close>, which follow the C source.
\<close>

definition wrap32 :: "int \<Rightarrow> int" where
  "wrap32 x = x mod 2 ^ 32"

definition as_signed32 :: "int \<Rightarrow> int" where
  "as_signed32 x = (if wrap32 x < 2 ^ 31 then wrap32 x else wrap32 x - 2 ^ 32)"

definition spec_div :: "signedness \<Rightarrow> int \<Rightarrow> int \<Rightarrow> int" where
  "spec_div sg a b =
     (case sg of Unsigned \<Rightarrow> a div b
               | Signed \<Rightarrow> wrap32 (as_signed32 a sdiv as_signed32 b))"



text \<open>Step 5.\<close>

definition spec_new_cap_voltage :: "signedness \<Rightarrow> int \<Rightarrow> int \<Rightarrow> int \<Rightarrow> int \<Rightarrow> int \<Rightarrow> int" where
  "spec_new_cap_voltage sg v input_current output_current period capacitance =
     wrap32 (v + spec_div sg
                   (wrap32 (wrap32 ((input_current - output_current) * 2 ^ 13) * period))
                   (wrap32 (100 * capacitance)))"

subsection \<open>A configuration to run the model on\<close>

text \<open>
  Settings in millivolt, microampere, microfarad and microsecond: a capacitor of
  1000 uF between 2500 mV and 3300 mV that starts at 2600 mV, an output capacitor
  of 500 uF, thresholds at 2550 mV and 2400 mV, and a hysteresis decision every
  second update.
\<close>

definition demo_settings :: VirtCapNoFpSettings where
  "demo_settings = \<lparr> upper_threshold_voltage = 2550, lower_threshold_voltage = 2400,
     sample_period_us = 10, capacitance_uF = 1000, kMaxCapVoltage = 3300,
     kMinCapVoltage = 2500, kInitCapVoltage = 2600, kDcoutputVoltage = 2000,
     kLeakageCurrent = 0, kOnTimeLeakageCurrent = 0, kDiscretize = 2, kOutputCap_uF = 500,
     kConverterEfficiency = 8192 \<rparr>"

text \<open>The state after \<open>virtcap_init\<close> with these settings and callback number 1.\<close>

definition demo_logic_settings :: VirtCapNoFpSettings where
  "demo_logic_settings = \<lparr> upper_threshold_voltage = 668467200,
     lower_threshold_voltage = 629145600, sample_period_us = 10, capacitance_uF = 1000,
     kMaxCapVoltage = 865075200, kMinCapVoltage = 655360000, kInitCapVoltage = 681574400,
     kDcoutputVoltage = 524288000, kLeakageCurrent = 0, kOnTimeLeakageCurrent = 0,
     kDiscretize = 2, kOutputCap_uF = 500, kConverterEfficiency = 8192 \<rparr>"

definition demo_state :: virtcap where
  "demo_state = \<lparr> harvest_multiplier = 0, kScaleInput = 102911,
     outputcap_scale_factor = 724, cap_voltage = 681574400, is_outputting = False,
     is_enabled = False, discretize_cntr = 0, settings = demo_logic_settings, callback = 1 \<rparr>"

text \<open>The states after one and after two updates with all four measurements zero.\<close>

definition demo_state_1 :: virtcap where
  "demo_state_1 = demo_state \<lparr> discretize_cntr := 1 \<rparr>"

definition demo_state_on :: virtcap where
  "demo_state_on = demo_state \<lparr> is_outputting := True, cap_voltage := 481894400 \<rparr>"

section \<open>Properties\<close>

subsection \<open>Running the model on the configuration\<close>

lemmas demo_defs = demo_settings_def demo_logic_settings_def demo_state_def demo_state_1_def
  demo_state_on_def zero_settings_def virtcap_globals_def

lemmas virtcap_defs = virtcap_init_def convert_settings_def voltage_mv_to_logic_def
  current_ua_to_logic_def SHIFT_VOLT_def c_div_def c_sdiv_def virtcap_update_def
  input_current_of_def output_current_of_def new_cap_voltage_of_def clamp_cap_voltage_def
  hysteresis_def Let_def

lemma not_2_le_1_u32: "\<not> (2::u32) \<le> 1"
  by (simp add: word_le_nat_alt)

lemma SquareRootRounded_524288: "SquareRootRounded 524288 = 724"
  by (simp add: SquareRootRounded_def sqrt_start.simps sqrt_loop.simps)

lemma demo_init: "virtcap_init sg virtcap_globals demo_settings 1 = Inr demo_state"
  by (cases sg) (simp_all add: virtcap_defs demo_defs SquareRootRounded_524288)

lemma demo_update_1: "virtcap_update sg demo_state cm 0 0 0 = Inr (demo_state_1, [])"
  by (cases sg) (simp_all add: virtcap_defs demo_defs not_2_le_1_u32)

lemma demo_update_2: "virtcap_update sg demo_state_1 cm 0 0 0 = Inr (demo_state_on, [Call 1 True])"
  by (cases sg) (simp_all add: virtcap_defs demo_defs)

lemma demo_run: "virtcap_run sg demo_state [(0, 0, 0, 0), (0, 0, 0, 0)] = Inr (demo_state_on, [Call 1 True])"
  by (simp add: demo_update_1 demo_update_2)

subsection \<open>What one update does to the state\<close>

lemma update_Inr:
  "virtcap_update sg g cm vm ip ef = Inr r \<Longrightarrow>
     r = hysteresis g (clamp_cap_voltage (settings g)
           (new_cap_voltage_of sg g (input_current_of g ip ef) (output_current_of g cm vm)))"
  by (auto simp: virtcap_update_def Let_def split: if_splits)

lemma hysteresis_calls:
  "hysteresis g v = (g', cs) \<Longrightarrow>
     cs = (if is_outputting g' = is_outputting g then []
           else [Call (callback g) (is_outputting g')])"
  by (auto simp: hysteresis_def Let_def split: if_splits)

lemma hysteresis_frame:
  "hysteresis g v = (g', cs) \<Longrightarrow>
     g' = g \<lparr> cap_voltage := cap_voltage g', is_outputting := is_outputting g',
              discretize_cntr := discretize_cntr g' \<rparr>"
  by (auto simp: hysteresis_def Let_def split: if_splits)

lemma hysteresis_cntr:
  "hysteresis g v = (g', cs) \<Longrightarrow>
     discretize_cntr g' = (if discretize_cntr g + 1 \<ge> kDiscretize (settings g) then 0
                           else discretize_cntr g + 1)"
  by (auto simp: hysteresis_def Let_def split: if_splits)

lemma hysteresis_no_wrap:
  "hysteresis g v = (g', cs) \<Longrightarrow> discretize_cntr g + 1 < kDiscretize (settings g) \<Longrightarrow>
     is_outputting g' = is_outputting g \<and> cs = [] \<and> cap_voltage g' = v"
  by (auto simp: hysteresis_def Let_def split: if_splits)

lemma update_frame:
  assumes "virtcap_update sg g cm vm ip ef = Inr (g', cs)"
  shows "g' = g \<lparr> cap_voltage := cap_voltage g', is_outputting := is_outputting g',
              discretize_cntr := discretize_cntr g' \<rparr>"
  using update_Inr [OF assms] hysteresis_frame by metis

lemma update_settings:
  assumes "virtcap_update sg g cm vm ip ef = Inr (g', cs)"
  shows "settings g' = settings g"
proof -
  have "settings g' = settings (g \<lparr> cap_voltage := cap_voltage g', is_outputting := is_outputting g',
              discretize_cntr := discretize_cntr g' \<rparr>)"
    using update_frame [OF assms] by simp
  then show ?thesis by simp
qed

lemma update_cntr:
  assumes "virtcap_update sg g cm vm ip ef = Inr (g', cs)"
  shows "discretize_cntr g' = (if discretize_cntr g + 1 \<ge> kDiscretize (settings g) then 0
                           else discretize_cntr g + 1)"
  using update_Inr [OF assms] hysteresis_cntr by metis

lemma update_no_wrap:
  assumes "virtcap_update sg g cm vm ip ef = Inr (g', cs)"
    and "discretize_cntr g + 1 < kDiscretize (settings g)"
  shows "is_outputting g' = is_outputting g \<and> cs = []"
  using update_Inr [OF assms(1)] hysteresis_no_wrap assms(2) by metis

subsection \<open>C3: the callback is invoked exactly on a transition\<close>

text \<open>
  Claim C3. A completed call of \<open>virtcap_update\<close> invokes the callback at most once.
  It invokes it exactly when \<open>is_outputting\<close> after the call differs from
  \<open>is_outputting\<close> before it, on the stored callback, and the argument is the new
  value of \<open>is_outputting\<close>: true when the output switches on, false when it
  switches off. When \<open>is_outputting\<close> does not change there is no invocation.
\<close>

theorem callback_iff_transition:
  "virtcap_update sg g cm vm ip ef = Inr (g', cs) \<Longrightarrow>
     cs = (if is_outputting g' = is_outputting g then []
           else [Call (callback g) (is_outputting g')])
     \<and> length cs \<le> 1"
proof -
  assume "virtcap_update sg g cm vm ip ef = Inr (g', cs)"
  then have "(g', cs) = hysteresis g (clamp_cap_voltage (settings g)
           (new_cap_voltage_of sg g (input_current_of g ip ef) (output_current_of g cm vm)))"
    by (rule update_Inr)
  then have "cs = (if is_outputting g' = is_outputting g then []
           else [Call (callback g) (is_outputting g')])"
    using hysteresis_calls by metis
  then show ?thesis by simp
qed

theorem callback_iff_transition_witness:
  "virtcap_update Unsigned demo_state_1 0 0 0 0 = Inr (demo_state_on, [Call 1 True])
   \<and> is_outputting demo_state_on \<noteq> is_outputting demo_state_1
   \<and> [Call 1 True] = [Call (callback demo_state_1) (is_outputting demo_state_on)]
   \<and> virtcap_update Unsigned demo_state 0 0 0 0 = Inr (demo_state_1, [])
   \<and> is_outputting demo_state_1 = is_outputting demo_state"
  using callback_iff_transition [OF demo_update_2 [of Unsigned 0]]
    callback_iff_transition [OF demo_update_1 [of Unsigned 0]]
  by (simp add: demo_update_1 demo_update_2) (simp add: demo_defs)


lemma unat_drop_bit_u32: "unat (drop_bit n (w::u32)) = unat w div 2 ^ n"
  unfolding unat_drop_bit_eq by (simp add: drop_bit_eq_div)

subsection \<open>Sequences of updates\<close>

lemma run_Cons_Inr:
  assumes "virtcap_run sg g ((cm, vm, ip, ef) # xs) = Inr (g'', cs'')"
  obtains g' cs cs' where "virtcap_update sg g cm vm ip ef = Inr (g', cs)"
    and "virtcap_run sg g' xs = Inr (g'', cs')" and "cs'' = cs @ cs'"
  using assms by (auto split: sum.splits prod.splits)

lemma run_settings:
  "virtcap_run sg g xs = Inr (g', cs) \<Longrightarrow> settings g' = settings g"
proof (induction xs arbitrary: g cs)
  case Nil
  then show ?case by simp
next
  case (Cons x xs)
  obtain cm vm ip ef where x: "x = (cm, vm, ip, ef)" by (cases x) auto
  from Cons.prems obtain g1 cs1 cs2 where
    u: "virtcap_update sg g cm vm ip ef = Inr (g1, cs1)" and
    r: "virtcap_run sg g1 xs = Inr (g', cs2)"
    unfolding x by (rule run_Cons_Inr)
  show ?case using Cons.IH [OF r] update_settings [OF u] by simp
qed

subsection \<open>C4: no transition while the counter does not wrap\<close>

lemma run_no_wrap:
  "virtcap_run sg g xs = Inr (g', cs) \<Longrightarrow>
   unat (discretize_cntr g) + length xs < unat (kDiscretize (settings g)) \<Longrightarrow>
     is_outputting g' = is_outputting g \<and> cs = []
     \<and> unat (discretize_cntr g') = unat (discretize_cntr g) + length xs"
proof (induction xs arbitrary: g cs)
  case Nil
  then show ?case by simp
next
  case (Cons x xs)
  obtain cm vm ip ef where x: "x = (cm, vm, ip, ef)" by (cases x) auto
  from Cons.prems(1) obtain g1 cs1 cs2 where
    u: "virtcap_update sg g cm vm ip ef = Inr (g1, cs1)" and
    r: "virtcap_run sg g1 xs = Inr (g', cs2)" and cs: "cs = cs1 @ cs2"
    unfolding x by (rule run_Cons_Inr)
  let ?c = "discretize_cntr g" and ?k = "kDiscretize (settings g)"
  have lt: "unat ?c + 1 < unat ?k" using Cons.prems(2) by simp
  have "unat ?k < 2 ^ 32" using unsigned_less [of ?k] by simp
  then have "unat ?c + unat (1::u32) < 2 ^ 32" using lt by simp
  then have c1: "unat (?c + 1) = unat ?c + 1"
    using unat_add_lem [of ?c 1] by simp
  then have w: "?c + 1 < ?k" using lt by (simp add: word_less_nat_alt)
  then have nw: "\<not> ?c + 1 \<ge> ?k" by simp
  have s1: "is_outputting g1 = is_outputting g \<and> cs1 = []"
    using update_no_wrap [OF u w] .
  have "discretize_cntr g1 = ?c + 1" using update_cntr [OF u] nw by simp
  then have n1: "unat (discretize_cntr g1) = unat ?c + 1" using c1 by simp
  have k1: "kDiscretize (settings g1) = ?k" using update_settings [OF u] by simp
  have "unat (discretize_cntr g1) + length xs < unat (kDiscretize (settings g1))"
    using Cons.prems(2) n1 k1 by simp
  from Cons.IH [OF r this] show ?case using s1 cs n1 by simp
qed

text \<open>
  Claim C4. In a call of \<open>virtcap_update\<close> where the counter, incremented once,
  stays below \<open>kDiscretize\<close>, \<open>is_outputting\<close> does not change and the callback is
  not invoked, whatever the measurements are. Hence over any sequence of calls
  that does not take the counter up to \<open>kDiscretize\<close>, \<open>is_outputting\<close> is
  constant: after a decision (counter 0) the next \<open>kDiscretize - 1\<close> calls cannot
  change it.
\<close>

theorem debounce_window:
  "(virtcap_update sg g cm vm ip ef = Inr (g', cs)
      \<and> discretize_cntr g + 1 < kDiscretize (settings g)
    \<longrightarrow> is_outputting g' = is_outputting g \<and> cs = [])
   \<and> (virtcap_run sg g xs = Inr (g'', cs')
      \<and> unat (discretize_cntr g) + length xs < unat (kDiscretize (settings g))
    \<longrightarrow> is_outputting g'' = is_outputting g \<and> cs' = [])"
  using update_no_wrap [of sg g cm vm ip ef g' cs] run_no_wrap [of sg g xs g'' cs']
  by blast

theorem debounce_window_witness:
  "virtcap_update Signed demo_state 70000 3000 0 0 = Inr (demo_state_1, [])
   \<and> discretize_cntr demo_state + 1 < kDiscretize (settings demo_state)
   \<and> is_outputting demo_state_1 = is_outputting demo_state
   \<and> virtcap_run Signed demo_state [(70000, 3000, 0, 0)] = Inr (demo_state_1, [])
   \<and> unat (discretize_cntr demo_state) + length [(70000, 3000, 0, 0) :: sample]
       < unat (kDiscretize (settings demo_state))"
proof -
  have u: "virtcap_update Signed demo_state 70000 3000 0 0 = Inr (demo_state_1, [])"
    by (simp add: virtcap_defs demo_defs not_2_le_1_u32)
  have c: "discretize_cntr demo_state + 1 < kDiscretize (settings demo_state)"
    by (simp add: demo_defs word_less_nat_alt)
  have r: "virtcap_run Signed demo_state [(70000, 3000, 0, 0)] = Inr (demo_state_1, [])"
    by (simp add: u)
  have n: "unat (discretize_cntr demo_state) + length [(70000, 3000, 0, 0) :: sample]
       < unat (kDiscretize (settings demo_state))"
    by (simp add: demo_defs)
  show ?thesis
    using u c r n
      debounce_window [of Signed demo_state 70000 3000 0 0 demo_state_1 "[]"
        "[(70000, 3000, 0, 0)]" demo_state_1 "[]"]
    by simp
qed

subsection \<open>C6: the measured current is ignored while not outputting\<close>

text \<open>
  Claim C6. In a state with \<open>is_outputting\<close> false, two calls of \<open>virtcap_update\<close>
  that differ only in \<open>current_measured\<close> give the same result: the same state
  (\<open>cap_voltage\<close>, \<open>is_outputting\<close>, \<open>discretize_cntr\<close> and everything else), the
  same callback invocations, or the same fault.
\<close>

theorem current_ignored_while_off:
  "\<not> is_outputting g \<Longrightarrow>
     virtcap_update sg g cm1 vm ip ef = virtcap_update sg g cm2 vm ip ef"
  by (simp add: virtcap_update_def output_current_of_def)

theorem current_ignored_while_off_witness:
  "\<not> is_outputting demo_state
   \<and> virtcap_update Unsigned demo_state 5 3000 40000 4096
       = virtcap_update Unsigned demo_state 70000 3000 40000 4096"
proof -
  have h: "\<not> is_outputting demo_state" by (simp add: demo_defs)
  show ?thesis
    using h current_ignored_while_off [OF h, of Unsigned 5 3000 40000 4096 70000] by simp
qed

subsection \<open>C9: what an update leaves alone\<close>

text \<open>
  Claim C9. A completed \<open>virtcap_update\<close> changes \<open>cap_voltage\<close>, \<open>is_outputting\<close>
  and \<open>discretize_cntr\<close> and nothing else: the settings, \<open>kScaleInput\<close>,
  \<open>outputcap_scale_factor\<close>, the callback, \<open>is_enabled\<close> (and \<open>harvest_multiplier\<close>)
  are as before. The stored settings are those passed to \<open>virtcap_init\<close> with the
  voltages and currents converted to logic units, and stay so over any sequence
  of updates.
\<close>

theorem update_frame_settings:
  "(virtcap_update sg g cm vm ip ef = Inr (g', cs)
    \<longrightarrow> g' = g \<lparr> cap_voltage := cap_voltage g', is_outputting := is_outputting g',
                  discretize_cntr := discretize_cntr g' \<rparr>
      \<and> settings g' = settings g \<and> kScaleInput g' = kScaleInput g
      \<and> outputcap_scale_factor g' = outputcap_scale_factor g
      \<and> callback g' = callback g \<and> is_enabled g' = is_enabled g
      \<and> harvest_multiplier g' = harvest_multiplier g)
   \<and> (virtcap_init sg g0 settings_arg callback_arg = Inr g1
        \<and> virtcap_run sg g1 xs = Inr (g2, cs2)
    \<longrightarrow> settings g1 = convert_settings settings_arg \<and> settings g2 = settings g1)"
proof (intro conjI impI)
  assume u: "virtcap_update sg g cm vm ip ef = Inr (g', cs)"
  let ?h = "g \<lparr> cap_voltage := cap_voltage g', is_outputting := is_outputting g',
                  discretize_cntr := discretize_cntr g' \<rparr>"
  show f: "g' = ?h" using update_frame [OF u] .
  have "settings g' = settings ?h" "kScaleInput g' = kScaleInput ?h"
    "outputcap_scale_factor g' = outputcap_scale_factor ?h" "callback g' = callback ?h"
    "is_enabled g' = is_enabled ?h" "harvest_multiplier g' = harvest_multiplier ?h"
    using f by simp_all
  then show "settings g' = settings g" "kScaleInput g' = kScaleInput g"
    "outputcap_scale_factor g' = outputcap_scale_factor g" "callback g' = callback g"
    "is_enabled g' = is_enabled g" "harvest_multiplier g' = harvest_multiplier g"
    by simp_all
next
  assume a: "virtcap_init sg g0 settings_arg callback_arg = Inr g1
        \<and> virtcap_run sg g1 xs = Inr (g2, cs2)"
  then show "settings g1 = convert_settings settings_arg"
    by (auto simp: virtcap_init_def Let_def split: if_splits)
  show "settings g2 = settings g1" using a run_settings by blast
qed

theorem update_frame_settings_witness:
  "virtcap_update Unsigned demo_state_1 0 0 0 0 = Inr (demo_state_on, [Call 1 True])
   \<and> settings demo_state_on = settings demo_state_1
   \<and> callback demo_state_on = callback demo_state_1
   \<and> virtcap_init Unsigned virtcap_globals demo_settings 1 = Inr demo_state
   \<and> virtcap_run Unsigned demo_state [(0, 0, 0, 0), (0, 0, 0, 0)] = Inr (demo_state_on, [Call 1 True])
   \<and> settings demo_state = convert_settings demo_settings
   \<and> settings demo_state_on = settings demo_state"
  using update_frame_settings [of Unsigned demo_state_1 0 0 0 0 demo_state_on "[Call 1 True]"
      virtcap_globals demo_settings 1 demo_state "[(0, 0, 0, 0), (0, 0, 0, 0)]" demo_state_on
      "[Call 1 True]"]
    demo_update_2 [of Unsigned 0] demo_init [of Unsigned] demo_run [of Unsigned]
  by blast

subsection \<open>C10: the divisor \<open>cap_voltage >> 13\<close>\<close>





subsection \<open>C8: the debounce counter\<close>

lemma run_cntr:
  "virtcap_run sg g xs = Inr (g', cs) \<Longrightarrow>
   discretize_cntr g < kDiscretize (settings g) \<Longrightarrow>
     discretize_cntr g' < kDiscretize (settings g')
     \<and> unat (discretize_cntr g')
         = (unat (discretize_cntr g) + length xs) mod unat (kDiscretize (settings g))"
proof (induction xs arbitrary: g cs)
  case Nil
  then show ?case by (simp add: word_less_nat_alt)
next
  case (Cons x xs)
  obtain cm vm ip ef where x: "x = (cm, vm, ip, ef)" by (cases x) auto
  from Cons.prems(1) obtain g1 cs1 cs2 where
    u: "virtcap_update sg g cm vm ip ef = Inr (g1, cs1)" and
    r: "virtcap_run sg g1 xs = Inr (g', cs2)"
    unfolding x by (rule run_Cons_Inr)
  let ?c = "discretize_cntr g" and ?k = "kDiscretize (settings g)"
  have lt: "unat ?c < unat ?k" using Cons.prems(2) by (simp add: word_less_nat_alt)
  have "unat ?k < 2 ^ 32" using unsigned_less [of ?k] by simp
  then have "unat ?c + unat (1::u32) < 2 ^ 32" using lt by simp
  then have c1: "unat (?c + 1) = unat ?c + 1"
    using unat_add_lem [of ?c 1] by simp
  have k1: "kDiscretize (settings g1) = ?k" using update_settings [OF u] by simp
  have step: "discretize_cntr g1 = (if ?c + 1 \<ge> ?k then 0 else ?c + 1)"
    using update_cntr [OF u] .
  have g1: "discretize_cntr g1 < ?k
      \<and> unat (discretize_cntr g1) = (unat ?c + 1) mod unat ?k"
  proof (cases "?c + 1 \<ge> ?k")
    case True
    then have "unat ?k \<le> unat ?c + 1" using c1 by (simp add: word_le_nat_alt)
    then have "unat ?c + 1 = unat ?k" using lt by simp
    moreover have "discretize_cntr g1 = 0" using step True by simp
    ultimately show ?thesis using lt by (simp add: word_less_nat_alt)
  next
    case False
    then have "unat ?c + 1 < unat ?k" using c1 by (simp add: word_le_nat_alt)
    moreover have "discretize_cntr g1 = ?c + 1" using step False by simp
    ultimately show ?thesis using c1 by (simp add: word_less_nat_alt)
  qed
  then have "discretize_cntr g1 < kDiscretize (settings g1)" using k1 by simp
  from Cons.IH [OF r this]
  have "discretize_cntr g' < kDiscretize (settings g')"
    and "unat (discretize_cntr g')
         = (unat (discretize_cntr g1) + length xs) mod unat ?k"
    using k1 by simp_all
  moreover have "((unat ?c + 1) mod unat ?k + length xs) mod unat ?k
      = (unat ?c + length (x # xs)) mod unat ?k"
    by (simp add: mod_add_left_eq)
  ultimately show ?case using g1 by simp
qed

lemma init_Inr:
  "virtcap_init sg g0 settings_arg callback_arg = Inr g \<Longrightarrow>
     settings g = convert_settings settings_arg \<and> discretize_cntr g = 0
     \<and> cap_voltage g = kInitCapVoltage (convert_settings settings_arg)
     \<and> \<not> is_outputting g \<and> callback g = callback_arg"
  by (auto simp: virtcap_init_def Let_def split: if_splits)

text \<open>
  Claim C8, as amended. When \<open>kDiscretize\<close> is not zero: after \<open>virtcap_init\<close> the
  counter is 0, and after any sequence of completed updates that follows it is
  below \<open>kDiscretize\<close> and equal to the number of updates modulo \<open>kDiscretize\<close>. In
  every call (whatever \<open>kDiscretize\<close> is) the counter is incremented once and set
  to 0 when the incremented value is at least \<open>kDiscretize\<close>. With \<open>kDiscretize\<close>
  zero the counter is 0 after every call, which is not below \<open>kDiscretize\<close>.
\<close>

theorem discretize_cntr_range:
  "(virtcap_init sg g0 settings_arg callback_arg = Inr g
      \<and> virtcap_run sg g xs = Inr (g', cs) \<and> kDiscretize settings_arg \<noteq> 0
    \<longrightarrow> discretize_cntr g = 0
      \<and> discretize_cntr g' < kDiscretize (settings g')
      \<and> unat (discretize_cntr g') = length xs mod unat (kDiscretize settings_arg))
   \<and> (virtcap_update sg g1 cm vm ip ef = Inr (g2, cs2)
    \<longrightarrow> discretize_cntr g2
        = (if discretize_cntr g1 + 1 \<ge> kDiscretize (settings g1) then 0
           else discretize_cntr g1 + 1))"
proof (intro conjI impI)
  assume a: "virtcap_init sg g0 settings_arg callback_arg = Inr g
      \<and> virtcap_run sg g xs = Inr (g', cs) \<and> kDiscretize settings_arg \<noteq> 0"
  then have i: "settings g = convert_settings settings_arg \<and> discretize_cntr g = 0"
    using init_Inr by blast
  then show "discretize_cntr g = 0" by simp
  have k: "kDiscretize (settings g) = kDiscretize settings_arg"
    using i by (simp add: convert_settings_def)
  then have "discretize_cntr g < kDiscretize (settings g)"
    using a i by (simp add: word_neq_0_conv)
  with a have r: "discretize_cntr g' < kDiscretize (settings g')
     \<and> unat (discretize_cntr g')
         = (unat (discretize_cntr g) + length xs) mod unat (kDiscretize (settings g))"
    using run_cntr by blast
  then show "discretize_cntr g' < kDiscretize (settings g')" by simp
  show "unat (discretize_cntr g') = length xs mod unat (kDiscretize settings_arg)"
    using r i k by simp
next
  assume "virtcap_update sg g1 cm vm ip ef = Inr (g2, cs2)"
  then show "discretize_cntr g2
        = (if discretize_cntr g1 + 1 \<ge> kDiscretize (settings g1) then 0
           else discretize_cntr g1 + 1)"
    by (rule update_cntr)
qed

theorem discretize_cntr_range_witness:
  "virtcap_init Signed virtcap_globals demo_settings 1 = Inr demo_state
   \<and> virtcap_run Signed demo_state [(0, 0, 0, 0)] = Inr (demo_state_1, [])
   \<and> kDiscretize demo_settings \<noteq> 0
   \<and> discretize_cntr demo_state_1 < kDiscretize (settings demo_state_1)
   \<and> unat (discretize_cntr demo_state_1) = 1
   \<and> virtcap_update Signed demo_state_1 0 0 0 0 = Inr (demo_state_on, [Call 1 True])
   \<and> discretize_cntr demo_state_on = 0"
proof -
  have r: "virtcap_run Signed demo_state [(0, 0, 0, 0)] = Inr (demo_state_1, [])"
    by (simp add: demo_update_1)
  have k: "kDiscretize demo_settings \<noteq> 0" by (simp add: demo_defs)
  have n: "length [(0, 0, 0, 0) :: sample] mod unat (kDiscretize demo_settings) = 1"
    by (simp add: demo_defs)
  have z: "discretize_cntr demo_state_on = 0" by (simp add: demo_defs)
  show ?thesis
    using discretize_cntr_range [of Signed virtcap_globals demo_settings 1 demo_state
        "[(0, 0, 0, 0)]" demo_state_1 "[]" demo_state_1 0 0 0 0 demo_state_on "[Call 1 True]"]
      demo_init [of Signed] r k n z demo_update_2 [of Signed 0]
    by metis
qed

text \<open>The claim as stated fails for \<open>kDiscretize = 0\<close>, already after \<open>virtcap_init\<close>.\<close>

theorem discretize_cntr_range_counterexample:
  "virtcap_init Unsigned virtcap_globals (demo_settings \<lparr> kDiscretize := 0 \<rparr>) 1
     = Inr (demo_state \<lparr> settings := demo_logic_settings \<lparr> kDiscretize := 0 \<rparr> \<rparr>)
   \<and> \<not> discretize_cntr (demo_state \<lparr> settings := demo_logic_settings \<lparr> kDiscretize := 0 \<rparr> \<rparr>)
       < kDiscretize (settings (demo_state \<lparr> settings := demo_logic_settings \<lparr> kDiscretize := 0 \<rparr> \<rparr>))
   \<and> virtcap_update Unsigned (demo_state \<lparr> settings := demo_logic_settings \<lparr> kDiscretize := 0 \<rparr> \<rparr>)
        0 0 0 0
     = Inr (demo_state_on \<lparr> settings := demo_logic_settings \<lparr> kDiscretize := 0 \<rparr> \<rparr>, [Call 1 True])
   \<and> \<not> discretize_cntr (demo_state_on \<lparr> settings := demo_logic_settings \<lparr> kDiscretize := 0 \<rparr> \<rparr>)
       < kDiscretize (settings (demo_state_on \<lparr> settings := demo_logic_settings \<lparr> kDiscretize := 0 \<rparr> \<rparr>))"
  by (simp add: virtcap_defs demo_defs SquareRootRounded_524288)

subsection \<open>C1: the clamp and the charge redistribution\<close>

lemma clamp_in_range:
  "kMinCapVoltage s \<le> kMaxCapVoltage s \<Longrightarrow>
     kMinCapVoltage s \<le> clamp_cap_voltage s v \<and> clamp_cap_voltage s v \<le> kMaxCapVoltage s"
  by (auto simp: clamp_cap_voltage_def)

lemma hysteresis_cap_voltage:
  "hysteresis g v = (g', cs) \<Longrightarrow>
     cap_voltage g' = (if \<not> is_outputting g \<and> is_outputting g'
                       then drop_bit 10 v * outputcap_scale_factor g else v)"
  by (auto simp: hysteresis_def Let_def split: if_splits)

text \<open>What the clamp does guarantee: with \<open>kMinCapVoltage \<le> kMaxCapVoltage\<close>, a
  completed update that does not switch the output on commits a voltage within
  the two bounds.\<close>

lemma update_in_range_unless_switched_on:
  assumes "virtcap_update sg g cm vm ip ef = Inr (g', cs)"
    and "kMinCapVoltage (settings g) \<le> kMaxCapVoltage (settings g)"
    and "is_outputting g \<or> \<not> is_outputting g'"
  shows "kMinCapVoltage (settings g') \<le> cap_voltage g'
     \<and> cap_voltage g' \<le> kMaxCapVoltage (settings g')"
proof -
  let ?v = "clamp_cap_voltage (settings g)
           (new_cap_voltage_of sg g (input_current_of g ip ef) (output_current_of g cm vm))"
  have "(g', cs) = hysteresis g ?v" using assms(1) by (rule update_Inr)
  then have "cap_voltage g' = ?v" using hysteresis_cap_voltage [of g ?v g' cs] assms(3) by auto
  then show ?thesis
    using clamp_in_range [OF assms(2)] update_settings [OF assms(1)] by simp
qed

text \<open>
  Claim C1 says that the committed \<open>cap_voltage\<close> is within
  \<open>[kMinCapVoltage, kMaxCapVoltage]\<close> after every update, also when the output is
  switched on. The code clamps first and applies the charge redistribution to
  the clamped value afterwards. With the configuration above (bounds 2500 mV and
  3300 mV, start at 2600 mV), after \<open>virtcap_init\<close> and two updates with all
  measurements zero the output is switched on and the committed voltage is
  \<open>481894400\<close> (about 1838 mV), below \<open>kMinCapVoltage = 655360000\<close>; this holds for
  either signedness of the settings' fields.
\<close>

theorem cap_voltage_below_min_after_switch_on:
  "virtcap_init Unsigned virtcap_globals demo_settings 1 = Inr demo_state
   \<and> virtcap_run Unsigned demo_state [(0, 0, 0, 0), (0, 0, 0, 0)]
       = Inr (demo_state_on, [Call 1 True])
   \<and> virtcap_init Signed virtcap_globals demo_settings 1 = Inr demo_state
   \<and> virtcap_run Signed demo_state [(0, 0, 0, 0), (0, 0, 0, 0)]
       = Inr (demo_state_on, [Call 1 True])
   \<and> kMinCapVoltage (settings demo_state_on) = 655360000
   \<and> kMaxCapVoltage (settings demo_state_on) = 865075200
   \<and> cap_voltage demo_state_on = 481894400
   \<and> cap_voltage demo_state_on < kMinCapVoltage (settings demo_state_on)"
proof -
  have "kMinCapVoltage (settings demo_state_on) = 655360000"
    and "kMaxCapVoltage (settings demo_state_on) = 865075200"
    and "cap_voltage demo_state_on = 481894400"
    and "cap_voltage demo_state_on < kMinCapVoltage (settings demo_state_on)"
    by (simp_all add: demo_defs)
  then show ?thesis
    using demo_init [of Unsigned] demo_run [of Unsigned] demo_init [of Signed]
      demo_run [of Signed]
    by blast
qed


subsection \<open>C7: the unit conversions are strictly increasing\<close>

lemma unat_voltage_mv_to_logic:
  assumes "v < 2 ^ 14"
  shows "unat (voltage_mv_to_logic v) = unat v * 2 ^ 18"
proof -
  have "unat v < 2 ^ 14" using assms by (simp add: word_less_nat_alt)
  then have "unat v * unat (262144::u32) < 2 ^ 32" by simp
  then have "unat (v * 262144) = unat v * unat (262144::u32)"
    using unat_mult_lem [of v 262144] by simp
  moreover have "voltage_mv_to_logic v = v * 262144"
    by (simp add: voltage_mv_to_logic_def SHIFT_VOLT_def push_bit_eq_mult)
  ultimately show ?thesis by simp
qed

lemma unat_current_ua_to_logic:
  assumes "c \<le> 1335499"
  shows "unat (current_ua_to_logic c) = unat c * 3216 div 1000"
proof -
  have "unat c \<le> 1335499" using assms by (simp add: word_le_nat_alt)
  then have "unat c * unat (3216::u32) < 2 ^ 32" by simp
  then have "unat (c * 3216) = unat c * unat (3216::u32)"
    using unat_mult_lem [of c 3216] by simp
  then show ?thesis by (simp add: current_ua_to_logic_def unat_div)
qed

text \<open>
  Claim C7. \<open>voltage_mv_to_logic v\<close> is \<open>(v * 32) << 13\<close> and
  \<open>current_ua_to_logic c\<close> is \<open>c * 3216 / 1000\<close>, in unsigned 32-bit arithmetic.
  On the inputs whose result does not wrap around, which is the valid domain
  (\<open>v < 2 ^ 14\<close> millivolt, \<open>c \<le> 1335499\<close> microampere), both are strictly
  increasing.
\<close>

theorem conversions_strictly_increasing:
  "voltage_mv_to_logic v = push_bit 13 (v * 32)
   \<and> current_ua_to_logic c = c * 3216 div 1000
   \<and> (x < y \<and> y < 2 ^ 14 \<longrightarrow> voltage_mv_to_logic x < voltage_mv_to_logic y)
   \<and> (x < y \<and> y \<le> 1335499 \<longrightarrow> current_ua_to_logic x < current_ua_to_logic y)"
proof (intro conjI impI)
  show "voltage_mv_to_logic v = push_bit 13 (v * 32)"
    by (simp add: voltage_mv_to_logic_def SHIFT_VOLT_def)
  show "current_ua_to_logic c = c * 3216 div 1000"
    by (simp add: current_ua_to_logic_def)
next
  assume a: "x < y \<and> y < 2 ^ 14"
  then have "x < 2 ^ 14" by auto
  then have "unat (voltage_mv_to_logic x) = unat x * 2 ^ 18"
    by (rule unat_voltage_mv_to_logic)
  moreover have "unat (voltage_mv_to_logic y) = unat y * 2 ^ 18"
    using a by (simp add: unat_voltage_mv_to_logic)
  moreover have "unat x < unat y" using a by (simp add: word_less_nat_alt)
  ultimately show "voltage_mv_to_logic x < voltage_mv_to_logic y"
    by (simp add: word_less_nat_alt)
next
  assume a: "x < y \<and> y \<le> 1335499"
  then have "x \<le> 1335499" by auto
  then have "unat (current_ua_to_logic x) = unat x * 3216 div 1000"
    by (rule unat_current_ua_to_logic)
  moreover have "unat (current_ua_to_logic y) = unat y * 3216 div 1000"
    using a by (simp add: unat_current_ua_to_logic)
  moreover have "unat x < unat y" using a by (simp add: word_less_nat_alt)
  then have "unat x * 3216 div 1000 < unat y * 3216 div 1000" by arith
  ultimately show "current_ua_to_logic x < current_ua_to_logic y"
    by (simp add: word_less_nat_alt)
qed

theorem conversions_strictly_increasing_witness:
  "(2599::u32) < 2600 \<and> (2600::u32) < 2 ^ 14
   \<and> voltage_mv_to_logic 2599 < voltage_mv_to_logic 2600
   \<and> (2600::u32) \<le> 1335499
   \<and> current_ua_to_logic 2599 < current_ua_to_logic 2600"
  using conversions_strictly_increasing [of 0 0 2599 2600]
  by simp

text \<open>Beyond that domain the product wraps around and the order is lost.\<close>

lemma voltage_mv_to_logic_wraps: "voltage_mv_to_logic 16384 < voltage_mv_to_logic 1"
  by (simp add: voltage_mv_to_logic_def SHIFT_VOLT_def)

lemma current_ua_to_logic_wraps: "current_ua_to_logic 1335500 < current_ua_to_logic 1"
  by (simp add: current_ua_to_logic_def)


subsection \<open>C5: the integration law\<close>










text \<open>The order of the operations matters: dividing \<open>2 ^ 13 * sample_period_us\<close> by
  \<open>100 * capacitance_uF\<close> first, an algebraically equal rearrangement, loses the
  whole increment on the same input.\<close>

lemma integration_order_matters:
  "spec_new_cap_voltage Unsigned 681574400 24738 0 10 1000 = 681594665
   \<and> wrap32 (681574400 + (24738 - 0) * (2 ^ 13 * 10 div (100 * 1000))) = 681574400"
  by (simp add: spec_new_cap_voltage_def spec_div_def wrap32_def)


subsection \<open>C2: the rounded integer square root\<close>

lemma sqrt_start_inv:
  "m \<le> 16 \<Longrightarrow> unat one = 4 ^ m div 4 \<Longrightarrow> unat op < 4 ^ m \<Longrightarrow>
     \<exists>m' \<le> 16. unat (sqrt_start one op) = 4 ^ m' div 4 \<and> unat op < 4 ^ m'"
proof (induction m arbitrary: one)
  case 0
  then have "one = 0" by (simp add: unat_eq_0)
  then have "sqrt_start one op = one" by (simp add: sqrt_start.simps)
  with 0 show ?case by (intro exI [of _ 0]) simp
next
  case (Suc m)
  show ?case
  proof (cases "one > op")
    case True
    then have lt: "unat op < unat one" by (simp add: word_less_nat_alt)
    have one: "unat one = 4 ^ m" using Suc.prems(2) by simp
    have "unat (drop_bit 2 one) = 4 ^ m div 4"
      by (simp add: unat_drop_bit_u32 one)
    moreover have "unat op < 4 ^ m" using lt one by simp
    moreover have "m \<le> 16" using Suc.prems(1) by simp
    ultimately have "\<exists>m' \<le> 16. unat (sqrt_start (drop_bit 2 one) op) = 4 ^ m' div 4 \<and> unat op < 4 ^ m'"
      using Suc.IH [of "drop_bit 2 one"] by simp
    moreover have "sqrt_start one op = sqrt_start (drop_bit 2 one) op"
      using True by (subst sqrt_start.simps) simp
    ultimately show ?thesis by simp
  next
    case False
    then have "sqrt_start one op = one" by (subst sqrt_start.simps) simp
    with Suc.prems show ?thesis by (intro exI [of _ "Suc m"]) simp
  qed
qed

lemma sqrt_loop_inv:
  "unat one = 4 ^ m div 4 \<Longrightarrow> unat res = R * 4 ^ m \<Longrightarrow> (R + 1) * 4 ^ m \<le> 2 ^ 32 \<Longrightarrow>
   unat op + R\<^sup>2 * 4 ^ m = n \<Longrightarrow> n < (R + 1)\<^sup>2 * 4 ^ m \<Longrightarrow>
     \<exists>op' res'. sqrt_loop op res one = (op', res') \<and> unat op' + (unat res')\<^sup>2 = n
        \<and> n < (unat res' + 1)\<^sup>2"
proof (induction m arbitrary: one res R op)
  case 0
  then have "one = 0" by (simp add: unat_eq_0)
  then have "sqrt_loop op res one = (op, res)" by (simp add: sqrt_loop.simps)
  with 0 show ?case by simp
next
  case (Suc k)
  define q :: nat where "q = 4 ^ k"
  have q0: "0 < q" by (simp add: q_def)
  have one: "unat one = q" using Suc.prems(1) by (simp add: q_def)
  have res: "unat res = 4 * R * q" using Suc.prems(2) by (simp add: q_def)
  have bound: "4 * R * q + 4 * q \<le> 2 ^ 32" using Suc.prems(3) by (simp add: q_def algebra_simps)
  have n: "unat op + 4 * R\<^sup>2 * q = n" using Suc.prems(4) by (simp add: q_def algebra_simps)
  have hi: "n < 4 * (R + 1)\<^sup>2 * q" using Suc.prems(5) by (simp add: q_def algebra_simps)
  have nz: "one \<noteq> 0" using one q0 by (auto simp: unat_eq_0 [symmetric])
  have one': "unat (drop_bit 2 one) = 4 ^ k div 4"
    by (simp add: unat_drop_bit_u32 one q_def)
  have sum: "unat (res + one) = 4 * R * q + q"
  proof -
    have "unat res + unat one < 2 ^ 32" using res one bound q0 by simp
    then have "unat (res + one) = unat res + unat one"
      using unat_add_lem [of res one] by simp
    then show ?thesis by (simp add: res one)
  qed
  show ?case
  proof (cases "op \<ge> res + one")
    case True
    then have le: "4 * R * q + q \<le> unat op" by (simp add: word_le_nat_alt sum)
    have eq: "sqrt_loop op res one
        = sqrt_loop (op - (res + one)) (drop_bit 1 (res + 2 * one)) (drop_bit 2 one)"
      using True nz by (subst sqrt_loop.simps) simp
    have op': "unat (op - (res + one)) = unat op - (4 * R * q + q)"
      using True by (simp add: unat_sub sum)
    have two: "unat (2 * one) = 2 * q"
    proof -
      have "unat (2::u32) * unat one < 2 ^ 32" using one bound q0 by simp
      then have "unat (2 * one) = unat (2::u32) * unat one"
        using unat_mult_lem [of 2 one] by simp
      then show ?thesis by (simp add: one)
    qed
    have "unat res + unat (2 * one) < 2 ^ 32" using res two bound q0 by simp
    then have "unat (res + 2 * one) = unat res + unat (2 * one)"
      using unat_add_lem [of res "2 * one"] by simp
    also have "\<dots> = 2 * ((2 * R + 1) * q)"
      unfolding res two by (simp add: algebra_simps)
    finally have "unat (res + 2 * one) = 2 * ((2 * R + 1) * q)" .
    then have res': "unat (drop_bit 1 (res + 2 * one)) = (2 * R + 1) * 4 ^ k"
      by (simp add: unat_drop_bit_u32 q_def)
    have b': "((2 * R + 1) + 1) * 4 ^ k \<le> 2 ^ 32"
      using bound q0 by (simp add: q_def algebra_simps)
    have sq: "(2 * R + 1)\<^sup>2 * q = 4 * R\<^sup>2 * q + (4 * R * q + q)"
      by (simp add: power2_eq_square algebra_simps)
    have n': "unat (op - (res + one)) + (2 * R + 1)\<^sup>2 * 4 ^ k = n"
      using le n op' sq by (simp add: q_def)
    have "((2 * R + 1) + 1)\<^sup>2 * q = 4 * (R + 1)\<^sup>2 * q"
      by (simp add: power2_eq_square algebra_simps)
    then have hi': "n < ((2 * R + 1) + 1)\<^sup>2 * 4 ^ k"
      using hi by (simp add: q_def)
    show ?thesis
      unfolding eq by (rule Suc.IH [OF one' res' b' n' hi'])
  next
    case False
    then have lt: "unat op < 4 * R * q + q" by (simp add: word_le_nat_alt sum)
    have eq: "sqrt_loop op res one = sqrt_loop op (drop_bit 1 res) (drop_bit 2 one)"
      using False nz by (subst sqrt_loop.simps) simp
    have "unat res = 2 * (2 * R * q)" by (simp add: res)
    then have res': "unat (drop_bit 1 res) = (2 * R) * 4 ^ k"
      by (simp add: unat_drop_bit_u32 q_def)
    have b': "((2 * R) + 1) * 4 ^ k \<le> 2 ^ 32"
      using bound q0 by (simp add: q_def algebra_simps)
    have "(2 * R)\<^sup>2 * q = 4 * R\<^sup>2 * q"
      by (simp add: power2_eq_square algebra_simps)
    then have n': "unat op + (2 * R)\<^sup>2 * 4 ^ k = n"
      using n by (simp add: q_def)
    have "((2 * R) + 1)\<^sup>2 * q = 4 * R\<^sup>2 * q + (4 * R * q + q)"
      by (simp add: power2_eq_square algebra_simps)
    then have hi': "n < ((2 * R) + 1)\<^sup>2 * 4 ^ k"
      using lt n by (simp add: q_def)
    show ?thesis
      unfolding eq by (rule Suc.IH [OF one' res' b' n' hi'])
  qed
qed

lemma sqrt_loop_result:
  obtains op res where "sqrt_loop a 0 (sqrt_start (push_bit 30 1) a) = (op, res)"
    and "unat op + (unat res)\<^sup>2 = unat a" and "unat a < (unat res + 1)\<^sup>2"
proof -
  have "unat (push_bit 30 1 :: u32) = 4 ^ 16 div 4" by simp
  moreover have "unat a < 4 ^ 16" using unsigned_less [of a] by simp
  ultimately obtain m where m: "m \<le> 16"
      "unat (sqrt_start (push_bit 30 1) a) = 4 ^ m div 4" "unat a < 4 ^ m"
    using sqrt_start_inv [of 16 "push_bit 30 1" a] by auto
  have "(4::nat) ^ m \<le> 4 ^ 16" using m(1) by (intro power_increasing) simp_all
  then have b: "(0 + 1) * 4 ^ m \<le> (2::nat) ^ 32" by simp
  have "\<exists>op' res'. sqrt_loop a 0 (sqrt_start (push_bit 30 1) a) = (op', res')
      \<and> unat op' + (unat res')\<^sup>2 = unat a \<and> unat a < (unat res' + 1)\<^sup>2"
    using m(3) by (intro sqrt_loop_inv [OF m(2) _ b]) simp_all
  then show ?thesis using that by blast
qed

text \<open>The result is the integer nearest to the square root: with \<open>r\<close> the result
  and \<open>n\<close> the argument, \<open>r\<^sup>2 - r < n \<le> r\<^sup>2 + r\<close> for \<open>n > 0\<close>.\<close>

lemma SquareRootRounded_nearest:
  "(unat (SquareRootRounded a))\<^sup>2 \<le> unat a + unat (SquareRootRounded a)
   \<and> unat a \<le> (unat (SquareRootRounded a))\<^sup>2 + unat (SquareRootRounded a)
   \<and> (a \<noteq> 0 \<longrightarrow> (unat (SquareRootRounded a))\<^sup>2 < unat a + unat (SquareRootRounded a))"
proof -
  obtain op res where l: "sqrt_loop a 0 (sqrt_start (push_bit 30 1) a) = (op, res)"
    and n: "unat op + (unat res)\<^sup>2 = unat a" and hi: "unat a < (unat res + 1)\<^sup>2"
    by (rule sqrt_loop_result)
  let ?R = "unat res" and ?n = "unat a"
  have sq: "(?R + 1)\<^sup>2 = ?R\<^sup>2 + 2 * ?R + 1" by (simp add: power2_eq_square)
  show ?thesis
  proof (cases "op > res")
    case True
    then have r: "SquareRootRounded a = res + 1" using l by (simp add: SquareRootRounded_def)
    have "?R < unat op" using True by (simp add: word_less_nat_alt)
    moreover have "unat op < 2 ^ 32" using unsigned_less [of op] by simp
    ultimately have "unat res + unat (1::u32) < 2 ^ 32" by simp
    then have "unat (res + 1) = ?R + 1" using unat_add_lem [of res 1] by simp
    then have u: "unat (SquareRootRounded a) = ?R + 1" using r by simp
    have "?R\<^sup>2 + ?R < ?n" using \<open>?R < unat op\<close> n by simp
    then show ?thesis using hi unfolding u sq by simp
  next
    case False
    then have r: "SquareRootRounded a = res" using l by (simp add: SquareRootRounded_def)
    have le: "unat op \<le> ?R" using False by (simp add: word_less_nat_alt)
    have "a \<noteq> 0 \<Longrightarrow> ?R\<^sup>2 < ?n + ?R"
    proof -
      assume "a \<noteq> 0"
      then have "0 < ?n" by (simp add: unat_gt_0)
      then have "?R \<noteq> 0" using n le by (cases "?R = 0") simp_all
      then show "?R\<^sup>2 < ?n + ?R" using n by simp
    qed
    then show ?thesis using n le unfolding r by auto
  qed
qed

lemma SquareRootRounded_values:
  "SquareRootRounded 0 = 0" "SquareRootRounded 1 = 1"
  "SquareRootRounded 2 = 1" "SquareRootRounded 3 = 2" "SquareRootRounded 4 = 2"
  "SquareRootRounded 6 = 2" "SquareRootRounded 7 = 3" "SquareRootRounded 8 = 3"
  "SquareRootRounded 9 = 3"
  by (simp_all add: SquareRootRounded_def sqrt_start.simps sqrt_loop.simps)

lemma rounded_root_le:
  fixes s r n :: int
  assumes "0 \<le> s" and "n \<le> s\<^sup>2 + s" and "r\<^sup>2 < n + r"
  shows "r \<le> s"
proof (rule ccontr)
  assume "\<not> r \<le> s"
  then have a: "s + 1 \<le> r" and b: "s \<le> r - 1" by simp_all
  have "(s + 1) * s \<le> r * (r - 1)"
    using a b assms(1) by (intro mult_mono) simp_all
  then have "s\<^sup>2 + s \<le> r\<^sup>2 - r" by (simp add: power2_eq_square algebra_simps)
  then show False using assms(2,3) by simp
qed

lemma SquareRootRounded_nearest_int:
  "(uint (SquareRootRounded n))\<^sup>2 \<le> uint n + uint (SquareRootRounded n)
   \<and> uint n \<le> (uint (SquareRootRounded n))\<^sup>2 + uint (SquareRootRounded n)
   \<and> (n \<noteq> 0 \<longrightarrow> 1 \<le> uint (SquareRootRounded n)
        \<and> (uint (SquareRootRounded n))\<^sup>2 < uint n + uint (SquareRootRounded n))"
proof (intro conjI impI)
  let ?r = "unat (SquareRootRounded n)"
  have "int (?r\<^sup>2) \<le> int (unat n + ?r)"
    using SquareRootRounded_nearest [of n] by (simp only: of_nat_le_iff)
  then show "(uint (SquareRootRounded n))\<^sup>2 \<le> uint n + uint (SquareRootRounded n)"
    by simp
  have up: "unat n \<le> ?r\<^sup>2 + ?r" using SquareRootRounded_nearest [of n] by simp
  then have "int (unat n) \<le> int (?r\<^sup>2 + ?r)" by (simp only: of_nat_le_iff)
  then show "uint n \<le> (uint (SquareRootRounded n))\<^sup>2 + uint (SquareRootRounded n)"
    by simp
  {
    assume nz: "n \<noteq> 0"
    then have "0 < unat n" by (simp add: unat_gt_0)
    then have "?r \<noteq> 0" using up by (cases "?r = 0") simp_all
    then have "SquareRootRounded n \<noteq> 0" by (simp add: unat_eq_0)
    then have "uint (SquareRootRounded n) \<noteq> 0" by (simp add: uint_0_iff)
    then show "1 \<le> uint (SquareRootRounded n)"
      using uint_ge_0 [of "SquareRootRounded n"] by linarith
    have "?r\<^sup>2 < unat n + ?r" using SquareRootRounded_nearest [of n] nz by simp
    then have "int (?r\<^sup>2) < int (unat n + ?r)" by (simp only: of_nat_less_iff)
    then show "(uint (SquareRootRounded n))\<^sup>2 < uint n + uint (SquareRootRounded n)"
      by simp
  }
qed

text \<open>
  Claim C2, as amended. For every unsigned 32-bit \<open>n\<close> the result
  \<open>r = SquareRootRounded n\<close> is the arithmetically rounded square root of \<open>n\<close>, the
  integer nearest to it, a fractional part of one half or more rounding up. On
  mathematical integers: \<open>r\<^sup>2 \<le> n + r\<close> and \<open>n \<le> r\<^sup>2 + r\<close> for every \<open>n\<close>; for every \<open>n\<close>
  other than 0 also \<open>(r - 1)\<^sup>2 < n\<close> and \<open>r\<^sup>2 - r < n\<close>, and \<open>r\<close> is the only
  non-negative integer \<open>s\<close> with \<open>s\<^sup>2 - s < n \<le> s\<^sup>2 + s\<close>, that is, with
  \<open>s - 1/2 < sqrt n < s + 1/2\<close>; \<open>SquareRootRounded 0 = 0\<close>. The function maps 2 to 1,
  3 to 2, 4 to 2, 6 to 2, 7 to 3, 8 to 3 and 9 to 3.
\<close>

theorem SquareRootRounded_rounds:
  "(uint (SquareRootRounded n))\<^sup>2 \<le> uint n + uint (SquareRootRounded n)
   \<and> uint n \<le> (uint (SquareRootRounded n))\<^sup>2 + uint (SquareRootRounded n)
   \<and> (n \<noteq> 0 \<longrightarrow> (uint (SquareRootRounded n) - 1)\<^sup>2 < uint n
        \<and> (uint (SquareRootRounded n))\<^sup>2 - uint (SquareRootRounded n) < uint n)
   \<and> (n \<noteq> 0 \<and> 0 \<le> s \<and> s\<^sup>2 - s < uint n \<and> uint n \<le> s\<^sup>2 + s
        \<longrightarrow> uint (SquareRootRounded n) = s)
   \<and> SquareRootRounded 0 = 0
   \<and> map SquareRootRounded [2, 3, 4, 6, 7, 8, 9] = [1, 2, 2, 2, 3, 3, 3]"
proof (intro conjI impI)
  let ?r = "uint (SquareRootRounded n)"
  show "?r\<^sup>2 \<le> uint n + ?r" and "uint n \<le> ?r\<^sup>2 + ?r"
    using SquareRootRounded_nearest_int [of n] by simp_all
  show "SquareRootRounded 0 = 0" by (rule SquareRootRounded_values)
  show "map SquareRootRounded [2, 3, 4, 6, 7, 8, 9] = [1, 2, 2, 2, 3, 3, 3]"
    by (simp add: SquareRootRounded_values)
  {
    assume "n \<noteq> 0"
    then have pos: "1 \<le> ?r" and lt: "?r\<^sup>2 < uint n + ?r"
      using SquareRootRounded_nearest_int [of n] by simp_all
    have "(?r - 1)\<^sup>2 = ?r\<^sup>2 - 2 * ?r + 1" by (simp add: power2_eq_square algebra_simps)
    then show "(?r - 1)\<^sup>2 < uint n" using lt pos by linarith
    show "?r\<^sup>2 - ?r < uint n" using lt by simp
  }
  {
    assume a: "n \<noteq> 0 \<and> 0 \<le> s \<and> s\<^sup>2 - s < uint n \<and> uint n \<le> s\<^sup>2 + s"
    then have lt: "?r\<^sup>2 < uint n + ?r" and up: "uint n \<le> ?r\<^sup>2 + ?r"
      using SquareRootRounded_nearest_int [of n] by simp_all
    have "?r \<le> s" using a lt by (intro rounded_root_le [of s "uint n" ?r]) simp_all
    moreover have "s \<le> ?r" using a up by (intro rounded_root_le [of ?r "uint n" s]) simp_all
    ultimately show "?r = s" by simp
  }
qed

theorem SquareRootRounded_rounds_witness:
  "(7::u32) \<noteq> 0 \<and> (0::int) \<le> 3 \<and> (3::int)\<^sup>2 - 3 < uint (7::u32) \<and> uint (7::u32) \<le> (3::int)\<^sup>2 + 3
   \<and> uint (SquareRootRounded 7) = 3
   \<and> (uint (SquareRootRounded 7))\<^sup>2 \<le> uint (7::u32) + uint (SquareRootRounded 7)
   \<and> uint (7::u32) \<le> (uint (SquareRootRounded 7))\<^sup>2 + uint (SquareRootRounded 7)
   \<and> (uint (SquareRootRounded 7) - 1)\<^sup>2 < uint (7::u32)
   \<and> (uint (SquareRootRounded 7))\<^sup>2 - uint (SquareRootRounded 7) < uint (7::u32)"
proof -
  have h: "(7::u32) \<noteq> 0 \<and> (0::int) \<le> 3 \<and> (3::int)\<^sup>2 - 3 < uint (7::u32)
      \<and> uint (7::u32) \<le> (3::int)\<^sup>2 + 3"
    by simp
  show ?thesis using h SquareRootRounded_rounds [of 7 3] by blast
qed

text \<open>A value beyond the listed ones.\<close>

lemma SquareRootRounded_100: "SquareRootRounded 100 = 10"
  by (simp add: SquareRootRounded_def sqrt_start.simps sqrt_loop.simps)


text \<open>The claim as stated fails at \<open>n = 0\<close>: the result is 0 and \<open>(0 - 1)\<^sup>2 = 1\<close> is
  not below 0.\<close>

theorem SquareRootRounded_zero_counterexample:
  "SquareRootRounded 0 = 0 \<and> \<not> (uint (SquareRootRounded 0) - 1)\<^sup>2 < uint (0::u32)"
  by (simp add: SquareRootRounded_values)


end
